theory Spec2Isabelle
  imports Main
begin

section \<open>Tokens\<close>

text \<open>
  The token kinds of \<^verbatim>\<open>enum class TokenType\<close> and the \<^verbatim>\<open>Token\<close> struct of
  \<^verbatim>\<open>mains.cpp\<close>. The fields \<^verbatim>\<open>type\<close> and \<^verbatim>\<open>value\<close> are named \<open>tok_type\<close> and
  \<open>tok_value\<close> here.
\<close>

datatype TokenType = IDENTIFIER | KEYWORD | OPERATOR | LITERAL | COMMENT | WHITESPACE | UNKNOWN

record Token =
  tok_type :: TokenType
  tok_value :: string

section \<open>Character classification\<close>

text \<open>
  The classification functions of the C library that the lexer calls, in the "C" locale
  (the program never calls \<^verbatim>\<open>setlocale\<close>): letters are A-Z and a-z, digits are 0-9,
  white space is the blank and the control characters 9 to 13. A byte above 127 is in none
  of the classes.
\<close>

definition isdigit :: "char \<Rightarrow> bool" where
  "isdigit c = (let n = (of_char c :: nat) in 48 \<le> n \<and> n \<le> 57)"

definition isalpha :: "char \<Rightarrow> bool" where
  "isalpha c = (let n = (of_char c :: nat) in (65 \<le> n \<and> n \<le> 90) \<or> (97 \<le> n \<and> n \<le> 122))"

definition isalnum :: "char \<Rightarrow> bool" where
  "isalnum c = (isalpha c \<or> isdigit c)"

definition isspace :: "char \<Rightarrow> bool" where
  "isspace c = (let n = (of_char c :: nat) in n = 32 \<or> (9 \<le> n \<and> n \<le> 13))"

section \<open>Lexer\<close>

text \<open>
  The state of a \<^verbatim>\<open>Lexer\<close> object: the immutable source text and the scan position.
\<close>

record Lexer =
  code :: string
  pos :: nat

text \<open>The constructor \<^verbatim>\<open>Lexer(code)\<close>: the position starts at 0.\<close>

definition newLexer :: "string \<Rightarrow> Lexer" where
  "newLexer src = \<lparr>code = src, pos = 0\<rparr>"

text \<open>
  \<^verbatim>\<open>while (pos < code.size() && isspace(code[pos])) ++pos;\<close>
\<close>

function skipWhitespace :: "Lexer \<Rightarrow> Lexer" where
  "skipWhitespace lx =
     (if pos lx < length (code lx) \<and> isspace (code lx ! pos lx)
      then skipWhitespace (lx\<lparr>pos := Suc (pos lx)\<rparr>)
      else lx)"
  by pat_completeness auto
termination
  by (relation "measure (\<lambda>lx. length (code lx) - pos lx)") auto

declare skipWhitespace.simps [simp del]

text \<open>
  The loop of \<^verbatim>\<open>lexIdentifier\<close>, with the local string \<^verbatim>\<open>identifier\<close> as accumulator:
  \<^verbatim>\<open>while (pos < code.size() && (isalnum(code[pos]) || code[pos] == '_'))
       identifier += code[pos++];\<close>
\<close>

function lexIdentifier_loop :: "Lexer \<Rightarrow> string \<Rightarrow> string \<times> Lexer" where
  "lexIdentifier_loop lx identifier =
     (if pos lx < length (code lx) \<and> (isalnum (code lx ! pos lx) \<or> code lx ! pos lx = CHR ''_'')
      then lexIdentifier_loop (lx\<lparr>pos := Suc (pos lx)\<rparr>) (identifier @ [code lx ! pos lx])
      else (identifier, lx))"
  by pat_completeness auto
termination
  by (relation "measure (\<lambda>(lx, _). length (code lx) - pos lx)") auto

declare lexIdentifier_loop.simps [simp del]

definition lexIdentifier :: "Lexer \<Rightarrow> Token \<times> Lexer" where
  "lexIdentifier lx =
     (let (identifier, lx') = lexIdentifier_loop lx []
      in (\<lparr>tok_type = IDENTIFIER, tok_value = identifier\<rparr>, lx'))"

text \<open>
  The loop of \<^verbatim>\<open>lexLiteral\<close>:
  \<^verbatim>\<open>while (pos < code.size() && isdigit(code[pos])) literal += code[pos++];\<close>
\<close>

function lexLiteral_loop :: "Lexer \<Rightarrow> string \<Rightarrow> string \<times> Lexer" where
  "lexLiteral_loop lx literal =
     (if pos lx < length (code lx) \<and> isdigit (code lx ! pos lx)
      then lexLiteral_loop (lx\<lparr>pos := Suc (pos lx)\<rparr>) (literal @ [code lx ! pos lx])
      else (literal, lx))"
  by pat_completeness auto
termination
  by (relation "measure (\<lambda>(lx, _). length (code lx) - pos lx)") auto

declare lexLiteral_loop.simps [simp del]

definition lexLiteral :: "Lexer \<Rightarrow> Token \<times> Lexer" where
  "lexLiteral lx =
     (let (literal, lx') = lexLiteral_loop lx []
      in (\<lparr>tok_type = LITERAL, tok_value = literal\<rparr>, lx'))"

text \<open>
  \<^verbatim>\<open>Lexer::getNextToken\<close>. The last branch returns the current character as an
  \<^verbatim>\<open>UNKNOWN\<close> token; the source does not touch \<^verbatim>\<open>pos\<close> there.
\<close>

definition getNextToken :: "Lexer \<Rightarrow> Token \<times> Lexer" where
  "getNextToken lx0 =
     (let lx = skipWhitespace lx0 in
      if pos lx \<ge> length (code lx) then (\<lparr>tok_type = UNKNOWN, tok_value = []\<rparr>, lx)
      else
        let currentChar = code lx ! pos lx in
        if isalpha currentChar \<or> currentChar = CHR ''_'' then lexIdentifier lx
        else if isdigit currentChar then lexLiteral lx
        else (\<lparr>tok_type = UNKNOWN, tok_value = [currentChar]\<rparr>, lx))"

subsection \<open>What the scanning loops compute\<close>

text \<open>
  Each loop stops at the first character outside its class or at the end of the text, so
  it reads off a \<open>takeWhile\<close> of the text from the position on.
\<close>

lemma skipWhitespace_eq:
  "skipWhitespace lx =
     lx\<lparr>pos := pos lx + length (takeWhile isspace (drop (pos lx) (code lx)))\<rparr>"
proof (induction lx rule: skipWhitespace.induct)
  case (1 lx)
  show ?case
  proof (cases "pos lx < length (code lx) \<and> isspace (code lx ! pos lx)")
    case True
    then have d: "drop (pos lx) (code lx) = code lx ! pos lx # drop (Suc (pos lx)) (code lx)"
      by (simp add: Cons_nth_drop_Suc)
    from True have "skipWhitespace lx = skipWhitespace (lx\<lparr>pos := Suc (pos lx)\<rparr>)"
      by (subst skipWhitespace.simps) simp
    also have "\<dots> = lx\<lparr>pos := pos lx + length (takeWhile isspace (drop (pos lx) (code lx)))\<rparr>"
      using "1.IH" [OF True] True by (simp add: d)
    finally show ?thesis .
  next
    case False
    then have "takeWhile isspace (drop (pos lx) (code lx)) = []"
      by (cases "pos lx < length (code lx)") (simp_all add: takeWhile_eq_Nil_iff hd_drop_conv_nth)
    with False show ?thesis
      by (subst skipWhitespace.simps) auto
  qed
qed

lemma lexIdentifier_loop_eq:
  "lexIdentifier_loop lx acc =
     (acc @ takeWhile (\<lambda>c. isalnum c \<or> c = CHR ''_'') (drop (pos lx) (code lx)),
      lx\<lparr>pos := pos lx +
        length (takeWhile (\<lambda>c. isalnum c \<or> c = CHR ''_'') (drop (pos lx) (code lx)))\<rparr>)"
proof (induction lx acc rule: lexIdentifier_loop.induct)
  case (1 lx acc)
  let ?P = "\<lambda>c. isalnum c \<or> c = CHR ''_''"
  show ?case
  proof (cases "pos lx < length (code lx) \<and> ?P (code lx ! pos lx)")
    case True
    then have d: "drop (pos lx) (code lx) = code lx ! pos lx # drop (Suc (pos lx)) (code lx)"
      by (simp add: Cons_nth_drop_Suc)
    from True have "lexIdentifier_loop lx acc =
        lexIdentifier_loop (lx\<lparr>pos := Suc (pos lx)\<rparr>) (acc @ [code lx ! pos lx])"
      by (subst lexIdentifier_loop.simps) simp
    also have "\<dots> = (acc @ takeWhile ?P (drop (pos lx) (code lx)),
        lx\<lparr>pos := pos lx + length (takeWhile ?P (drop (pos lx) (code lx)))\<rparr>)"
      using "1.IH" [OF True] True by (simp add: d)
    finally show ?thesis .
  next
    case False
    then have "takeWhile ?P (drop (pos lx) (code lx)) = []"
      by (cases "pos lx < length (code lx)") (simp_all add: takeWhile_eq_Nil_iff hd_drop_conv_nth)
    with False show ?thesis
      by (subst lexIdentifier_loop.simps) auto
  qed
qed

lemma lexLiteral_loop_eq:
  "lexLiteral_loop lx acc =
     (acc @ takeWhile isdigit (drop (pos lx) (code lx)),
      lx\<lparr>pos := pos lx + length (takeWhile isdigit (drop (pos lx) (code lx)))\<rparr>)"
proof (induction lx acc rule: lexLiteral_loop.induct)
  case (1 lx acc)
  show ?case
  proof (cases "pos lx < length (code lx) \<and> isdigit (code lx ! pos lx)")
    case True
    then have d: "drop (pos lx) (code lx) = code lx ! pos lx # drop (Suc (pos lx)) (code lx)"
      by (simp add: Cons_nth_drop_Suc)
    from True have "lexLiteral_loop lx acc =
        lexLiteral_loop (lx\<lparr>pos := Suc (pos lx)\<rparr>) (acc @ [code lx ! pos lx])"
      by (subst lexLiteral_loop.simps) simp
    also have "\<dots> = (acc @ takeWhile isdigit (drop (pos lx) (code lx)),
        lx\<lparr>pos := pos lx + length (takeWhile isdigit (drop (pos lx) (code lx)))\<rparr>)"
      using "1.IH" [OF True] True by (simp add: d)
    finally show ?thesis .
  next
    case False
    then have "takeWhile isdigit (drop (pos lx) (code lx)) = []"
      by (cases "pos lx < length (code lx)") (simp_all add: takeWhile_eq_Nil_iff hd_drop_conv_nth)
    with False show ?thesis
      by (subst lexLiteral_loop.simps) auto
  qed
qed

lemma skipWhitespace_code: "code (skipWhitespace lx) = code lx"
  by (subst skipWhitespace_eq) simp

lemma skipWhitespace_pos_ge: "pos lx \<le> pos (skipWhitespace lx)"
  by (subst skipWhitespace_eq) simp

lemma lexIdentifier_eq:
  "lexIdentifier lx =
     (\<lparr>tok_type = IDENTIFIER,
       tok_value = takeWhile (\<lambda>c. isalnum c \<or> c = CHR ''_'') (drop (pos lx) (code lx))\<rparr>,
      lx\<lparr>pos := pos lx +
        length (takeWhile (\<lambda>c. isalnum c \<or> c = CHR ''_'') (drop (pos lx) (code lx)))\<rparr>)"
  by (simp add: lexIdentifier_def lexIdentifier_loop_eq)

lemma lexLiteral_eq:
  "lexLiteral lx =
     (\<lparr>tok_type = LITERAL, tok_value = takeWhile isdigit (drop (pos lx) (code lx))\<rparr>,
      lx\<lparr>pos := pos lx + length (takeWhile isdigit (drop (pos lx) (code lx)))\<rparr>)"
  by (simp add: lexLiteral_def lexLiteral_loop_eq)

lemma takeWhile_drop_pos:
  assumes "q < length xs" and "P (xs ! q)"
  shows "0 < length (takeWhile P (drop q xs))"
proof -
  from assms(1) have "drop q xs = xs ! q # drop (Suc q) xs"
    by (simp add: Cons_nth_drop_Suc)
  with assms(2) show ?thesis by simp
qed

text \<open>
  A call that returns a token of another kind than \<^verbatim>\<open>UNKNOWN\<close> has consumed at least one
  character: the two scanning loops start on a character of their own class.
\<close>

lemma getNextToken_progress:
  assumes "getNextToken lx = (t, lx')" and "tok_type t \<noteq> UNKNOWN"
  shows "code lx' = code lx \<and> pos lx < pos lx' \<and> pos lx < length (code lx)"
proof -
  let ?s = "skipWhitespace lx"
  let ?c = "code lx ! pos ?s"
  have ge: "pos lx \<le> pos ?s" by (rule skipWhitespace_pos_ge)
  have lt: "pos ?s < length (code lx)"
    using assms by (auto simp: getNextToken_def Let_def skipWhitespace_code split: if_splits)
  consider (ident) "isalpha ?c \<or> ?c = CHR ''_''"
    | (lit) "\<not> (isalpha ?c \<or> ?c = CHR ''_'')" "isdigit ?c"
    | (unk) "\<not> (isalpha ?c \<or> ?c = CHR ''_'')" "\<not> isdigit ?c"
    by blast
  then show ?thesis
  proof cases
    case ident
    then have P: "isalnum ?c \<or> ?c = CHR ''_''" by (auto simp: isalnum_def)
    from ident lt have "getNextToken lx = lexIdentifier ?s"
      by (simp add: getNextToken_def Let_def skipWhitespace_code)
    with assms(1) have "lx' = ?s\<lparr>pos := pos ?s +
        length (takeWhile (\<lambda>c. isalnum c \<or> c = CHR ''_'') (drop (pos ?s) (code lx)))\<rparr>"
      by (simp add: lexIdentifier_eq skipWhitespace_code)
    moreover have
      "0 < length (takeWhile (\<lambda>c. isalnum c \<or> c = CHR ''_'') (drop (pos ?s) (code lx)))"
      using lt P by (rule takeWhile_drop_pos)
    ultimately have "code lx' = code lx" and "pos ?s < pos lx'"
      by (simp_all add: skipWhitespace_code del: length_greater_0_conv)
    with ge lt show ?thesis by simp
  next
    case lit
    with lt have "getNextToken lx = lexLiteral ?s"
      by (simp add: getNextToken_def Let_def skipWhitespace_code)
    with assms(1) have "lx' = ?s\<lparr>pos := pos ?s +
        length (takeWhile isdigit (drop (pos ?s) (code lx)))\<rparr>"
      by (simp add: lexLiteral_eq skipWhitespace_code)
    moreover have "0 < length (takeWhile isdigit (drop (pos ?s) (code lx)))"
      using lt lit(2) by (rule takeWhile_drop_pos)
    ultimately have "code lx' = code lx" and "pos ?s < pos lx'"
      by (simp_all add: skipWhitespace_code del: length_greater_0_conv)
    with ge lt show ?thesis by simp
  next
    case unk
    with lt have "getNextToken lx = (\<lparr>tok_type = UNKNOWN, tok_value = [?c]\<rparr>, ?s)"
      by (simp add: getNextToken_def Let_def skipWhitespace_code)
    with assms show ?thesis by auto
  qed
qed

text \<open>
  The position is a \<^verbatim>\<open>size_t\<close>, modelled as a natural number: it is only incremented
  below the size of the text, so it never passes the size and never wraps.
\<close>

lemma takeWhile_drop_le: "q \<le> length xs \<Longrightarrow> q + length (takeWhile P (drop q xs)) \<le> length xs"
  using length_takeWhile_le [of P "drop q xs"] by simp

lemma getNextToken_pos_bound:
  assumes "pos lx \<le> length (code lx)"
  shows "code (snd (getNextToken lx)) = code lx \<and>
         pos lx \<le> pos (snd (getNextToken lx)) \<and>
         pos (snd (getNextToken lx)) \<le> length (code lx)"
proof -
  let ?s = "skipWhitespace lx"
  have s: "code ?s = code lx" "pos lx \<le> pos ?s" "pos ?s \<le> length (code lx)"
    using assms takeWhile_drop_le [of "pos lx" "code lx" isspace]
    by (simp_all add: skipWhitespace_eq)
  have i: "pos ?s + length (takeWhile (\<lambda>c. isalnum c \<or> c = CHR ''_'') (drop (pos ?s) (code lx)))
      \<le> length (code lx)"
    using s(3) by (rule takeWhile_drop_le)
  have l: "pos ?s + length (takeWhile isdigit (drop (pos ?s) (code lx))) \<le> length (code lx)"
    using s(3) by (rule takeWhile_drop_le)
  show ?thesis
    using s i l
    by (simp add: getNextToken_def Let_def lexIdentifier_eq lexLiteral_eq)
qed

section \<open>Materializing the token stream\<close>

text \<open>
  The lexing loop of \<^verbatim>\<open>main\<close>:
  \<^verbatim>\<open>do { token = lexer.getNextToken(); tokens.push_back(token); }
     while (token.type != TokenType::UNKNOWN);\<close>
  It ends because every token that keeps it going has moved the position forward.
\<close>

function tokenize_loop :: "Lexer \<Rightarrow> Token list \<Rightarrow> Token list" where
  "tokenize_loop lexer toks =
     (case getNextToken lexer of
        (token, lexer') \<Rightarrow>
          if tok_type token \<noteq> UNKNOWN then tokenize_loop lexer' (toks @ [token])
          else toks @ [token])"
  by pat_completeness auto
termination
  by (relation "measure (\<lambda>(lexer, toks). length (code lexer) - pos lexer)")
     (auto dest: getNextToken_progress [OF sym])

declare tokenize_loop.simps [simp del]

definition tokenize :: "string \<Rightarrow> Token list" where
  "tokenize src = tokenize_loop (newLexer src) []"

section \<open>Syntax tree\<close>

text \<open>
  \<^verbatim>\<open>class ASTNode\<close>: a label, a text and the children, each child owned by its parent.
  The fields \<^verbatim>\<open>type\<close> and \<^verbatim>\<open>value\<close> are \<open>node_type\<close> and \<open>node_value\<close>. A shared
  pointer to a node that may be \<^verbatim>\<open>nullptr\<close> is an \<open>ASTNode option\<close>.
\<close>

datatype ASTNode = ASTNode (node_type: string) (node_value: string) (children: "ASTNode list")

text \<open>\<^verbatim>\<open>node->children.push_back(child)\<close>\<close>

definition push_back_child :: "ASTNode \<Rightarrow> ASTNode \<Rightarrow> ASTNode" where
  "push_back_child node child =
     ASTNode (node_type node) (node_value node) (children node @ [child])"

section \<open>Parser\<close>

text \<open>
  The state of a \<^verbatim>\<open>Parser\<close> object: the token vector and the cursor \<^verbatim>\<open>index\<close>. The
  field \<open>cerr\<close> holds the lines the parser has written to \<^verbatim>\<open>std::cerr\<close>, oldest first.
\<close>

record Parser =
  tokens :: "Token list"
  index :: nat
  cerr :: "string list"

definition newParser :: "Token list \<Rightarrow> Parser" where
  "newParser toks = \<lparr>tokens = toks, index = 0, cerr = []\<rparr>"

text \<open>
  \<^verbatim>\<open>tokens[index]\<close> on a \<^verbatim>\<open>std::vector\<close> is undefined behaviour when the index is not
  below the size; the model makes that read an error value.
\<close>

datatype error = OutOfRange

definition vector_at :: "'a list \<Rightarrow> nat \<Rightarrow> error + 'a" where
  "vector_at v i = (if i < length v then Inr (v ! i) else Inl OutOfRange)"

definition getCurrentToken :: "Parser \<Rightarrow> error + Token" where
  "getCurrentToken p =
     (if index p < length (tokens p) then vector_at (tokens p) (index p)
      else Inr \<lparr>tok_type = UNKNOWN, tok_value = []\<rparr>)"

definition consumeToken :: "Parser \<Rightarrow> Parser" where
  "consumeToken p = p\<lparr>index := Suc (index p)\<rparr>"

text \<open>\<^verbatim>\<open>std::cerr << line << std::endl\<close>\<close>

definition write_cerr :: "string \<Rightarrow> Parser \<Rightarrow> Parser" where
  "write_cerr line p = p\<lparr>cerr := cerr p @ [line]\<rparr>"

text \<open>
  \<^verbatim>\<open>Parser::parseStatement\<close>: the node or \<^verbatim>\<open>nullptr\<close>, and the parser afterwards.
\<close>

definition parseStatement :: "Parser \<Rightarrow> error + (ASTNode option \<times> Parser)" where
  "parseStatement p =
     (case getCurrentToken p of
        Inl e \<Rightarrow> Inl e
      | Inr token \<Rightarrow>
          if tok_type token = IDENTIFIER then
            (let statementNode = ASTNode ''Statement'' (tok_value token) [];
                 p1 = consumeToken p
             in case getCurrentToken p1 of
                  Inl e \<Rightarrow> Inl e
                | Inr next_token \<Rightarrow>
                    if tok_value next_token = '';''
                    then Inr (Some statementNode, consumeToken p1)
                    else Inr (None, write_cerr ''Expected semicolon after identifier.'' p1))
          else Inr (None, write_cerr (''Unexpected token: '' @ tok_value token) p))"

text \<open>
  The loop of \<^verbatim>\<open>Parser::parseProgram\<close>:
  \<^verbatim>\<open>while (index < tokens.size()) {
       auto statementNode = parseStatement();
       if (statementNode) programNode->children.push_back(statementNode);
     }
     return programNode;\<close>
  Nothing in the loop bounds the number of iterations, so the result is an option: \<open>None\<close>
  is the loop that never ends.
\<close>

partial_function (option) parseProgram_loop ::
  "Parser \<Rightarrow> ASTNode \<Rightarrow> (error + (ASTNode \<times> Parser)) option" where
  "parseProgram_loop p programNode =
     (if index p < length (tokens p) then
        (case parseStatement p of
           Inl e \<Rightarrow> Some (Inl e)
         | Inr (statementNode, p') \<Rightarrow>
             (case statementNode of
                Some node \<Rightarrow> parseProgram_loop p' (push_back_child programNode node)
              | None \<Rightarrow> parseProgram_loop p' programNode))
      else Some (Inr (programNode, p)))"

declare parseProgram_loop.simps [code]

definition parseProgram :: "Parser \<Rightarrow> (error + (ASTNode \<times> Parser)) option" where
  "parseProgram p = parseProgram_loop p (ASTNode ''Program'' [] [])"

definition parse :: "Parser \<Rightarrow> (error + (ASTNode \<times> Parser)) option" where
  "parse p = parseProgram p"

section \<open>Serializer\<close>

text \<open>
  \<^verbatim>\<open>ASTSerializer::serializeNode\<close> appends to the output stream \<open>oss\<close>. The loop over the
  children writes the separator after every child but the last
  (\<^verbatim>\<open>i != node->children.size() - 1\<close>), which is every child with a child after it.
\<close>

fun serializeNode :: "ASTNode \<Rightarrow> string \<Rightarrow> string"
  and serializeNode_children :: "ASTNode list \<Rightarrow> string \<Rightarrow> string" where
  "serializeNode (ASTNode t v cs) oss =
     serializeNode_children cs
       (oss @ ''{ \"type\": \"'' @ t @ ''\", \"value\": \"'' @ v @ ''\", \"children\": ['')
     @ ''] }''"
| "serializeNode_children [] oss = oss"
| "serializeNode_children (c # rest) oss =
     serializeNode_children rest
       (if rest \<noteq> [] then serializeNode c oss @ '', '' else serializeNode c oss)"

definition serialize :: "ASTNode \<Rightarrow> string" where
  "serialize node = serializeNode node []"

section \<open>Facts about the lexer and the token stream\<close>

lemmas lexer_eval =
  getNextToken_def Let_def skipWhitespace_eq lexIdentifier_eq lexLiteral_eq newLexer_def
  isspace_def isalpha_def isdigit_def isalnum_def

lemma letter_not_space: "isalpha c \<or> c = CHR ''_'' \<Longrightarrow> \<not> isspace c"
  by (auto simp: isalpha_def isspace_def Let_def)

lemma takeWhile_run:
  assumes "\<forall>c \<in> set run. P c" and "post = [] \<or> \<not> P (hd post)"
  shows "takeWhile P (run @ post) = run"
proof -
  have "takeWhile P post = []"
    using assms(2) by (cases post) auto
  with assms(1) show ?thesis by simp
qed

lemma tokenize_loop_shape:
  "\<exists>rest. tokenize_loop lexer toks = toks @ rest \<and> rest \<noteq> [] \<and>
     tok_type (last rest) = UNKNOWN \<and> (\<forall>t \<in> set (butlast rest). tok_type t \<noteq> UNKNOWN)"
proof (induction lexer toks rule: tokenize_loop.induct)
  case (1 lexer toks)
  obtain token lexer' where g: "getNextToken lexer = (token, lexer')"
    by (cases "getNextToken lexer")
  show ?case
  proof (cases "tok_type token \<noteq> UNKNOWN")
    case True
    from "1.IH" [OF g [symmetric] True] obtain rest where
      r: "tokenize_loop lexer' (toks @ [token]) = (toks @ [token]) @ rest" "rest \<noteq> []"
         "tok_type (last rest) = UNKNOWN" "\<forall>t \<in> set (butlast rest). tok_type t \<noteq> UNKNOWN"
      by blast
    have "tokenize_loop lexer toks = toks @ (token # rest)"
      using g True r(1) by (subst tokenize_loop.simps) simp
    moreover have "tok_type (last (token # rest)) = UNKNOWN" using r(2,3) by simp
    moreover have "\<forall>t \<in> set (butlast (token # rest)). tok_type t \<noteq> UNKNOWN"
      using r(2,4) True by simp
    ultimately show ?thesis by blast
  next
    case False
    then have "tokenize_loop lexer toks = toks @ [token]"
      using g by (subst tokenize_loop.simps) simp
    with False show ?thesis by simp
  qed
qed

lemma tokenize_empty: "tokenize [] = [\<lparr>tok_type = UNKNOWN, tok_value = []\<rparr>]"
  by (simp add: tokenize_def tokenize_loop.simps lexer_eval)

lemma tokenize_123:
  "tokenize ''123;'' =
     [\<lparr>tok_type = LITERAL, tok_value = ''123''\<rparr>, \<lparr>tok_type = UNKNOWN, tok_value = '';''\<rparr>]"
  by (simp add: tokenize_def tokenize_loop.simps lexer_eval)

lemma tokenize_foo:
  "tokenize ''foo;'' =
     [\<lparr>tok_type = IDENTIFIER, tok_value = ''foo''\<rparr>, \<lparr>tok_type = UNKNOWN, tok_value = '';''\<rparr>]"
  by (simp add: tokenize_def tokenize_loop.simps lexer_eval)

lemma tokenize_a_b:
  "tokenize ''a b;'' =
     [\<lparr>tok_type = IDENTIFIER, tok_value = ''a''\<rparr>, \<lparr>tok_type = IDENTIFIER, tok_value = ''b''\<rparr>,
      \<lparr>tok_type = UNKNOWN, tok_value = '';''\<rparr>]"
  by (simp add: tokenize_def tokenize_loop.simps lexer_eval)

subsection \<open>Reaching a run of identifier characters\<close>

lemma space_not_idchar: "isspace c \<Longrightarrow> \<not> (isalnum c \<or> c = CHR ''_'')"
  by (auto simp: isalnum_def isalpha_def isdigit_def isspace_def Let_def)

lemma space_not_digit: "isspace c \<Longrightarrow> \<not> isdigit c"
  by (auto simp: isdigit_def isspace_def Let_def)

lemma filter_spaces: "\<forall>c \<in> set xs. isspace c \<Longrightarrow> filter (\<lambda>c. \<not> isspace c) xs = []"
  by (induction xs) auto

lemma filter_no_spaces:
  "\<forall>c \<in> set xs. \<not> isspace c \<Longrightarrow> filter (\<lambda>c. \<not> isspace c) xs = xs"
  by (induction xs) auto

lemma takeWhile_stops_inside:
  assumes "r \<noteq> []" and "\<not> Q (last r)"
  shows "takeWhile Q (r @ ys) = takeWhile Q r"
proof -
  from assms(1) have "last r \<in> set r" by simp
  then show ?thesis using assms(2) by (rule takeWhile_append1)
qed

text \<open>The loop of \<^verbatim>\<open>main\<close> only appends to the vector it was given.\<close>

lemma tokenize_loop_acc: "tokenize_loop lx acc = acc @ tokenize_loop lx []"
proof (induction "length (code lx) - pos lx" arbitrary: lx acc rule: less_induct)
  case less
  obtain t lx' where g: "getNextToken lx = (t, lx')"
    by (cases "getNextToken lx")
  show ?case
  proof (cases "tok_type t \<noteq> UNKNOWN")
    case False
    with g show ?thesis
      by (subst (1 2) tokenize_loop.simps) simp
  next
    case True
    from getNextToken_progress [OF g True]
    have m: "length (code lx') - pos lx' < length (code lx) - pos lx" by auto
    have "tokenize_loop lx acc = tokenize_loop lx' (acc @ [t])"
      using g True by (subst tokenize_loop.simps) simp
    also have "\<dots> = (acc @ [t]) @ tokenize_loop lx' []"
      using m by (rule less.hyps)
    also have "\<dots> = acc @ ([t] @ tokenize_loop lx' [])" by simp
    also have "[t] @ tokenize_loop lx' [] = tokenize_loop lx' [t]"
      using less.hyps [OF m, of "[t]"] by simp
    also have "tokenize_loop lx' [t] = tokenize_loop lx []"
      using g True by (subst (2) tokenize_loop.simps) simp
    finally show ?thesis .
  qed
qed

lemma tokenize_loop_token:
  assumes "getNextToken lx = (t, lx')" and "tok_type t \<noteq> UNKNOWN"
  shows "tokenize_loop lx [] = t # tokenize_loop lx' []"
proof -
  have "tokenize_loop lx [] = tokenize_loop lx' [t]"
    using assms by (subst tokenize_loop.simps) simp
  also have "\<dots> = [t] @ tokenize_loop lx' []"
    by (rule tokenize_loop_acc)
  finally show ?thesis by simp
qed

text \<open>
  A call made at the run, or in white space directly before it, returns the run as one
  identifier and leaves the position right behind the run.
\<close>

lemma getNextToken_identifier_run:
  assumes src: "code lx = pre @ ws @ run @ post"
    and at: "pos lx = length pre"
    and ws: "\<forall>c \<in> set ws. isspace c"
    and ne: "run \<noteq> []"
    and start: "isalpha (hd run) \<or> hd run = CHR ''_''"
    and run: "\<forall>c \<in> set run. isalnum c \<or> c = CHR ''_''"
    and maximal: "post = [] \<or> \<not> (isalnum (hd post) \<or> hd post = CHR ''_'')"
  shows "getNextToken lx =
     (\<lparr>tok_type = IDENTIFIER, tok_value = run\<rparr>,
      lx\<lparr>pos := length pre + length ws + length run\<rparr>)"
proof -
  let ?s = "lx\<lparr>pos := length pre + length ws\<rparr>"
  have "\<not> isspace (hd (run @ post))"
    using ne start by (simp add: letter_not_space)
  then have "run @ post = [] \<or> \<not> isspace (hd (run @ post))" by simp
  with ws have "takeWhile isspace (ws @ (run @ post)) = ws"
    by (rule takeWhile_run)
  then have skip: "skipWhitespace lx = ?s"
    by (subst skipWhitespace_eq) (simp add: src at)
  have cur: "code lx ! (length pre + length ws) = hd run"
    using ne by (simp add: src nth_append hd_conv_nth)
  have inside: "length pre + length ws < length (code lx)"
    using ne by (simp add: src)
  have "getNextToken lx = lexIdentifier ?s"
    using start cur inside by (simp add: getNextToken_def skip Let_def)
  moreover have "takeWhile (\<lambda>c. isalnum c \<or> c = CHR ''_'') (run @ post) = run"
    using run maximal by (rule takeWhile_run)
  ultimately show ?thesis
    by (simp add: lexIdentifier_eq src)
qed

text \<open>
  A call made before a character of a prefix that is a letter, a digit or an underscore,
  with at most white space in between, where the prefix ends in white space: the token is
  an identifier or a literal that ends inside the prefix.
\<close>

lemma getNextToken_inside_prefix:
  assumes src: "code lx = before @ w @ r @ rest"
    and at: "pos lx = length before"
    and w: "\<forall>c \<in> set w. isspace c"
    and r: "r \<noteq> []"
    and hd_r: "\<not> isspace (hd r)" "isalnum (hd r) \<or> hd r = CHR ''_''"
    and last_r: "isspace (last r)"
  shows "\<exists>t Q. getNextToken lx =
             (t, lx\<lparr>pos := length before + length w + length (takeWhile Q r)\<rparr>) \<and>
           tok_type t \<noteq> UNKNOWN \<and> tok_value t = takeWhile Q r \<and>
           (\<forall>c. Q c \<longrightarrow> \<not> isspace c)"
proof -
  let ?s = "lx\<lparr>pos := length before + length w\<rparr>"
  have "r @ rest = [] \<or> \<not> isspace (hd (r @ rest))"
    using r hd_r(1) by simp
  with w have "takeWhile isspace (w @ (r @ rest)) = w"
    by (rule takeWhile_run)
  then have skip: "skipWhitespace lx = ?s"
    by (subst skipWhitespace_eq) (simp add: src at)
  have cur: "code lx ! (length before + length w) = hd r"
    using r by (simp add: src nth_append hd_conv_nth)
  have inside: "length before + length w < length (code lx)"
    using r by (simp add: src)
  have dr: "drop (length before + length w) (code lx) = r @ rest"
    by (simp add: src)
  show ?thesis
  proof (cases "isalpha (hd r) \<or> hd r = CHR ''_''")
    case True
    let ?Q = "\<lambda>c. isalnum c \<or> c = CHR ''_''"
    have "\<not> ?Q (last r)" using last_r by (rule space_not_idchar)
    with r have tw: "takeWhile ?Q (r @ rest) = takeWhile ?Q r"
      by (rule takeWhile_stops_inside)
    have "getNextToken lx = lexIdentifier ?s"
      using True cur inside by (simp add: getNextToken_def skip Let_def)
    then have "getNextToken lx =
        (\<lparr>tok_type = IDENTIFIER, tok_value = takeWhile ?Q r\<rparr>,
         lx\<lparr>pos := length before + length w + length (takeWhile ?Q r)\<rparr>)"
      by (simp add: lexIdentifier_eq dr tw)
    moreover have "\<forall>c. ?Q c \<longrightarrow> \<not> isspace c"
      using space_not_idchar by blast
    ultimately show ?thesis
      by (intro exI [of _ "\<lparr>tok_type = IDENTIFIER, tok_value = takeWhile ?Q r\<rparr>"] exI [of _ ?Q])
         simp
  next
    case False
    with hd_r(2) have dig: "isdigit (hd r)" by (auto simp: isalnum_def)
    have "\<not> isdigit (last r)" using last_r by (rule space_not_digit)
    with r have tw: "takeWhile isdigit (r @ rest) = takeWhile isdigit r"
      by (rule takeWhile_stops_inside)
    have "getNextToken lx = lexLiteral ?s"
      using False dig cur inside by (simp add: getNextToken_def skip Let_def)
    then have "getNextToken lx =
        (\<lparr>tok_type = LITERAL, tok_value = takeWhile isdigit r\<rparr>,
         lx\<lparr>pos := length before + length w + length (takeWhile isdigit r)\<rparr>)"
      by (simp add: lexLiteral_eq dr tw)
    moreover have "\<forall>c. isdigit c \<longrightarrow> \<not> isspace c"
      using space_not_digit by blast
    ultimately show ?thesis
      by (intro exI [of _ "\<lparr>tok_type = LITERAL, tok_value = takeWhile isdigit r\<rparr>"]
            exI [of _ isdigit])
         simp
  qed
qed

text \<open>
  From any position inside a prefix of white space, letters, digits and underscores, the
  loop of \<^verbatim>\<open>main\<close> first emits tokens whose texts make up the rest of the prefix without
  its white space, then the run as one identifier, and goes on behind the run.
\<close>

lemma tokenize_loop_reaches_run:
  assumes regular: "\<forall>c \<in> set pre. isspace c \<or> isalnum c \<or> c = CHR ''_''"
    and left: "pre = [] \<or> \<not> (isalnum (last pre) \<or> last pre = CHR ''_'')"
    and ne: "run \<noteq> []"
    and start: "isalpha (hd run) \<or> hd run = CHR ''_''"
    and run: "\<forall>c \<in> set run. isalnum c \<or> c = CHR ''_''"
    and maximal: "post = [] \<or> \<not> (isalnum (hd post) \<or> hd post = CHR ''_'')"
    and src: "code lx = pre @ run @ post"
    and at: "pos lx \<le> length pre"
  shows "\<exists>mid. tokenize_loop lx [] =
            mid @ \<lparr>tok_type = IDENTIFIER, tok_value = run\<rparr> #
              tokenize_loop (lx\<lparr>pos := length pre + length run\<rparr>) [] \<and>
          concat (map tok_value mid) = filter (\<lambda>c. \<not> isspace c) (drop (pos lx) pre)"
  using src at
proof (induction "length pre - pos lx" arbitrary: lx rule: less_induct)
  case less
  define q where "q = pos lx"
  define h where "h = take q pre"
  define w where "w = takeWhile isspace (drop q pre)"
  define r where "r = dropWhile isspace (drop q pre)"
  let ?tok = "\<lparr>tok_type = IDENTIFIER, tok_value = run\<rparr>"
  have q: "q \<le> length pre" using less.prems(2) by (simp add: q_def)
  have D: "w @ r = drop q pre" by (simp add: w_def r_def)
  have pre: "h @ w @ r = pre" by (simp add: h_def D)
  have w: "\<forall>c \<in> set w. isspace c"
    by (auto simp: w_def dest: set_takeWhileD)
  have len: "pos lx = length h" using q by (simp add: h_def q_def)
  have lenpre: "length pre = length h + length w + length r"
    using arg_cong [OF pre, of length] by simp
  have "h @ w @ (r @ run @ post) = (h @ w @ r) @ run @ post" by simp
  also have "\<dots> = pre @ run @ post" by (simp only: pre)
  finally have code: "code lx = h @ w @ (r @ run @ post)"
    using less.prems(1) by simp
  show ?case
  proof (cases "r = []")
    case True
    have code': "code lx = h @ w @ run @ post"
      using code True by simp
    have Dw: "drop q pre = w" using D True by simp
    have lenw: "length h + length w = length pre"
      using lenpre True by simp
    have "getNextToken lx = (?tok, lx\<lparr>pos := length h + length w + length run\<rparr>)"
      using code' len w ne start run maximal by (rule getNextToken_identifier_run)
    then have g: "getNextToken lx = (?tok, lx\<lparr>pos := length pre + length run\<rparr>)"
      by (simp only: lenw)
    have "tokenize_loop lx [] = ?tok # tokenize_loop (lx\<lparr>pos := length pre + length run\<rparr>) []"
      using g by (rule tokenize_loop_token) simp
    moreover have "filter (\<lambda>c. \<not> isspace c) (drop (pos lx) pre) = []"
      unfolding q_def [symmetric] Dw using w by (rule filter_spaces)
    ultimately show ?thesis
      by (intro exI [of _ "[]"]) simp
  next
    case False
    have "last (h @ w @ r) = last r" using False by simp
    then have last_r: "last r = last pre" by (simp only: pre)
    have ne_pre: "pre \<noteq> []" using lenpre False by auto
    have hd_sp: "\<not> isspace (hd r)"
      using False unfolding r_def by (rule hd_dropWhile)
    have "hd r \<in> set (h @ w @ r)" using False by simp
    then have "hd r \<in> set pre" by (simp only: pre)
    with regular hd_sp have hd_id: "isalnum (hd r) \<or> hd r = CHR ''_''" by blast
    have "last pre \<in> set pre" using ne_pre by simp
    with regular left ne_pre have "isspace (last pre)" by blast
    then have last_sp: "isspace (last r)" by (simp only: last_r)
    from getNextToken_inside_prefix [OF code len w False hd_sp hd_id last_sp]
    obtain t Q where
      g: "getNextToken lx = (t, lx\<lparr>pos := length h + length w + length (takeWhile Q r)\<rparr>)"
      and t: "tok_type t \<noteq> UNKNOWN" "tok_value t = takeWhile Q r"
      and Q: "\<forall>c. Q c \<longrightarrow> \<not> isspace c"
      by blast
    define v where "v = takeWhile Q r"
    define p' where "p' = length h + length w + length v"
    define lx' where "lx' = lx\<lparr>pos := p'\<rparr>"
    have g': "getNextToken lx = (t, lx')"
      using g by (simp add: lx'_def p'_def v_def)
    have "length v \<le> length r"
      unfolding v_def by (rule length_takeWhile_le)
    then have le: "p' \<le> length pre"
      using lenpre by (simp add: p'_def)
    from getNextToken_progress [OF g' t(1)] have lt: "pos lx < p'"
      by (simp add: lx'_def)
    have pos': "pos lx' = p'" and code': "code lx' = pre @ run @ post"
      using less.prems(1) by (simp_all add: lx'_def)
    have m: "length pre - pos lx' < length pre - pos lx"
      using le lt pos' by simp
    have le': "pos lx' \<le> length pre" using le pos' by simp
    from less.hyps [OF m code' le'] obtain mid where
      mid: "tokenize_loop lx' [] =
              mid @ ?tok # tokenize_loop (lx'\<lparr>pos := length pre + length run\<rparr>) []"
           "concat (map tok_value mid) = filter (\<lambda>c. \<not> isspace c) (drop (pos lx') pre)"
      by blast
    have same: "lx'\<lparr>pos := length pre + length run\<rparr> = lx\<lparr>pos := length pre + length run\<rparr>"
      by (simp add: lx'_def)
    have "drop p' (h @ w @ r) = drop (length v) r"
      by (simp add: p'_def)
    then have "drop p' pre = drop (length v) r" by (simp only: pre)
    then have dp: "drop p' pre = dropWhile Q r"
      by (simp add: v_def dropWhile_eq_drop)
    have fw: "filter (\<lambda>c. \<not> isspace c) w = []"
      using w by (rule filter_spaces)
    have "\<forall>c \<in> set v. \<not> isspace c"
      using Q by (auto simp: v_def dest: set_takeWhileD)
    then have fv: "filter (\<lambda>c. \<not> isspace c) v = v"
      by (rule filter_no_spaces)
    have "w @ v @ dropWhile Q r = w @ r" by (simp add: v_def)
    then have "w @ v @ drop p' pre = drop q pre" by (simp only: dp D)
    then have "filter (\<lambda>c. \<not> isspace c) (drop q pre) =
        filter (\<lambda>c. \<not> isspace c) (w @ v @ drop p' pre)"
      by simp
    then have f: "filter (\<lambda>c. \<not> isspace c) (drop (pos lx) pre) =
        v @ filter (\<lambda>c. \<not> isspace c) (drop p' pre)"
      using fw fv by (simp add: q_def)
    have "tokenize_loop lx [] = t # tokenize_loop lx' []"
      using g' t(1) by (rule tokenize_loop_token)
    then have "tokenize_loop lx [] =
        (t # mid) @ ?tok # tokenize_loop (lx\<lparr>pos := length pre + length run\<rparr>) []"
      using mid(1) by (simp add: same)
    moreover have "concat (map tok_value (t # mid)) =
        filter (\<lambda>c. \<not> isspace c) (drop (pos lx) pre)"
      using mid(2) t(2) f by (simp add: v_def pos')
    ultimately show ?thesis by blast
  qed
qed

section \<open>Facts about the parser\<close>

lemma getCurrentToken_eq:
  "getCurrentToken p =
     Inr (if index p < length (tokens p) then tokens p ! index p
          else \<lparr>tok_type = UNKNOWN, tok_value = []\<rparr>)"
  by (simp add: getCurrentToken_def vector_at_def)

text \<open>\<^verbatim>\<open>parseStatement\<close> with the reads of the token vector spelled out.\<close>

lemma parseStatement_eq:
  "parseStatement p =
     (let token = (if index p < length (tokens p) then tokens p ! index p
                   else \<lparr>tok_type = UNKNOWN, tok_value = []\<rparr>)
      in if tok_type token = IDENTIFIER then
           (if Suc (index p) < length (tokens p) \<and> tok_value (tokens p ! Suc (index p)) = '';''
            then Inr (Some (ASTNode ''Statement'' (tok_value token) []),
                      p\<lparr>index := Suc (Suc (index p))\<rparr>)
            else Inr (None, p\<lparr>index := Suc (index p),
                               cerr := cerr p @ [''Expected semicolon after identifier.'']\<rparr>))
         else Inr (None, p\<lparr>cerr := cerr p @ [''Unexpected token: '' @ tok_value token]\<rparr>))"
  by (simp add: parseStatement_def getCurrentToken_eq consumeToken_def write_cerr_def Let_def)

text \<open>
  The cursor is a \<^verbatim>\<open>size_t\<close> as well: a statement attempt moves it only over tokens of
  the vector, so it never passes the size and never wraps.
\<close>

lemma parseStatement_index_bound:
  assumes "parseStatement p = Inr (r, p')" and "index p \<le> length (tokens p)"
  shows "tokens p' = tokens p \<and> index p \<le> index p' \<and> index p' \<le> length (tokens p)"
  using assms
  by (auto simp: parseStatement_eq Let_def split: if_splits)

lemma parseStatement_Inr: "\<exists>st p1. parseStatement p = Inr (st, p1)"
  by (simp add: parseStatement_eq Let_def)

lemma parseStatement_Some:
  assumes "parseStatement p = Inr (Some node, p')"
  shows "node_type node = ''Statement'' \<and> children node = []"
proof -
  let ?token = "if index p < length (tokens p) then tokens p ! index p
                else \<lparr>tok_type = UNKNOWN, tok_value = []\<rparr>"
  from assms have "node = ASTNode ''Statement'' (tok_value ?token) []"
    unfolding parseStatement_eq Let_def by (simp split: if_splits)
  then show ?thesis by simp
qed

text \<open>One turn of the loop of \<^verbatim>\<open>parseProgram\<close>, by what the statement attempt returned.\<close>

lemma parseProgram_loop_done:
  "\<not> index p < length (tokens p) \<Longrightarrow> parseProgram_loop p n = Some (Inr (n, p))"
  by (subst parseProgram_loop.simps) simp

lemma parseProgram_loop_step:
  "index p < length (tokens p) \<Longrightarrow> parseStatement p = Inr (Some node, p') \<Longrightarrow>
   parseProgram_loop p n = parseProgram_loop p' (push_back_child n node)"
  by (subst parseProgram_loop.simps) simp

text \<open>
  A token in range that is not an identifier stops the parser for good: the statement
  attempt writes its diagnostic, leaves the cursor where it is, and the loop meets the
  same token again. The loop then has no result.
\<close>

lemma parseProgram_loop_stuck_aux:
  "parseProgram_loop p n = Some y \<Longrightarrow>
   \<not> (index p < length (tokens p) \<and> tok_type (tokens p ! index p) \<noteq> IDENTIFIER)"
proof (induction p n y rule: parseProgram_loop.raw_induct [rotated 1, consumes 1])
  case (1 loop p n y)
  show ?case
  proof
    assume st: "index p < length (tokens p) \<and> tok_type (tokens p ! index p) \<noteq> IDENTIFIER"
    let ?p' = "p\<lparr>cerr := cerr p @ [''Unexpected token: '' @ tok_value (tokens p ! index p)]\<rparr>"
    from st have ps: "parseStatement p = Inr (None, ?p')"
      by (simp add: parseStatement_eq)
    from "1.hyps" st ps have "loop ?p' n = Some y" by simp
    from "1.IH" [OF this] st show False by simp
  qed
qed

lemma parseProgram_loop_stuck:
  "index p < length (tokens p) \<Longrightarrow> tok_type (tokens p ! index p) \<noteq> IDENTIFIER \<Longrightarrow>
   parseProgram_loop p n = None"
  using parseProgram_loop_stuck_aux [of p n] by (cases "parseProgram_loop p n") auto

lemma parseProgram_loop_shape:
  "parseProgram_loop p n = Some y \<Longrightarrow>
   node_type n = ''Program'' \<and> node_value n = [] \<and>
     (\<forall>c \<in> set (children n). node_type c = ''Statement'' \<and> children c = []) \<longrightarrow>
   (\<forall>r p'. y = Inr (r, p') \<longrightarrow>
     node_type r = ''Program'' \<and> node_value r = [] \<and>
     (\<forall>c \<in> set (children r). node_type c = ''Statement'' \<and> children c = []))"
proof (induction p n y rule: parseProgram_loop.raw_induct [rotated 1, consumes 1])
  case (1 loop p n y)
  show ?case
  proof (cases "index p < length (tokens p)")
    case False
    with "1.hyps" show ?thesis by auto
  next
    case True
    obtain st p1 where ps: "parseStatement p = Inr (st, p1)"
      using parseStatement_Inr [of p] by blast
    show ?thesis
    proof (cases st)
      case None
      with True ps "1.hyps" have "loop p1 n = Some y" by simp
      from "1.IH" [OF this] show ?thesis .
    next
      case (Some node)
      with True ps "1.hyps" have l: "loop p1 (push_back_child n node) = Some y" by simp
      from ps Some have "node_type node = ''Statement'' \<and> children node = []"
        using parseStatement_Some [of p node p1] by simp
      then have "(node_type n = ''Program'' \<and> node_value n = [] \<and>
          (\<forall>c \<in> set (children n). node_type c = ''Statement'' \<and> children c = [])) \<longrightarrow>
        (node_type (push_back_child n node) = ''Program'' \<and>
         node_value (push_back_child n node) = [] \<and>
          (\<forall>c \<in> set (children (push_back_child n node)).
             node_type c = ''Statement'' \<and> children c = []))"
        by (simp add: push_back_child_def)
      with "1.IH" [OF l] show ?thesis by blast
    qed
  qed
qed

lemma parseProgram_loop_no_error:
  "parseProgram_loop p n = Some y \<Longrightarrow> (\<forall>e. y \<noteq> Inl e)"
proof (induction p n y rule: parseProgram_loop.raw_induct [rotated 1, consumes 1])
  case (1 loop p n y)
  show ?case
  proof (cases "index p < length (tokens p)")
    case False
    with "1.hyps" show ?thesis by auto
  next
    case True
    obtain st p1 where ps: "parseStatement p = Inr (st, p1)"
      using parseStatement_Inr [of p] by blast
    show ?thesis
    proof (cases st)
      case None
      with True ps "1.hyps" have "loop p1 n = Some y" by simp
      from "1.IH" [OF this] show ?thesis .
    next
      case (Some node)
      with True ps "1.hyps" have "loop p1 (push_back_child n node) = Some y" by simp
      from "1.IH" [OF this] show ?thesis .
    qed
  qed
qed

lemma parseStatement_foo:
  "parseStatement \<lparr>tokens = [\<lparr>tok_type = IDENTIFIER, tok_value = ''foo''\<rparr>,
       \<lparr>tok_type = UNKNOWN, tok_value = '';''\<rparr>], index = 0, cerr = []\<rparr> =
   Inr (Some (ASTNode ''Statement'' ''foo'' []),
     \<lparr>tokens = [\<lparr>tok_type = IDENTIFIER, tok_value = ''foo''\<rparr>,
       \<lparr>tok_type = UNKNOWN, tok_value = '';''\<rparr>], index = 2, cerr = []\<rparr>)"
  by (simp add: parseStatement_eq)

lemma parse_foo:
  "parse (newParser (tokenize ''foo;'')) =
     Some (Inr (ASTNode ''Program'' [] [ASTNode ''Statement'' ''foo'' []],
                \<lparr>tokens = tokenize ''foo;'', index = 2, cerr = []\<rparr>))"
  by (simp add: tokenize_foo parse_def parseProgram_def newParser_def
      parseProgram_loop_step [OF _ parseStatement_foo] parseProgram_loop_done push_back_child_def)

section \<open>Facts about the serializer\<close>

text \<open>What a call appends does not depend on what the stream already holds.\<close>

lemma serializeNode_children_appends:
  assumes "\<And>c oss. c \<in> set cs \<Longrightarrow> serializeNode c oss = oss @ serializeNode c []"
  shows "serializeNode_children cs oss = oss @ serializeNode_children cs []"
  using assms
proof (induction cs arbitrary: oss)
  case Nil
  show ?case by simp
next
  case (Cons c rest)
  have c: "\<And>oss. serializeNode c oss = oss @ serializeNode c []"
    by (rule Cons.prems) simp
  have rest: "\<And>oss. serializeNode_children rest oss = oss @ serializeNode_children rest []"
    by (rule Cons.IH) (rule Cons.prems, simp)
  show ?case
  proof (cases "rest = []")
    case True
    then show ?thesis using c [of oss] by simp
  next
    case False
    have "serializeNode_children (c # rest) oss =
        serializeNode_children rest (serializeNode c oss @ '', '')"
      using False by simp
    also have "\<dots> = (serializeNode c oss @ '', '') @ serializeNode_children rest []"
      by (rule rest)
    also have "\<dots> = oss @ ((serializeNode c [] @ '', '') @ serializeNode_children rest [])"
      using c [of oss] by simp
    also have "(serializeNode c [] @ '', '') @ serializeNode_children rest [] =
        serializeNode_children rest (serializeNode c [] @ '', '')"
      by (rule rest [symmetric])
    also have "\<dots> = serializeNode_children (c # rest) []"
      using False by simp
    finally show ?thesis .
  qed
qed

lemma serializeNode_appends: "serializeNode node oss = oss @ serializeNode node []"
proof (induction node arbitrary: oss)
  case (ASTNode t v cs)
  have ch: "\<And>oss. serializeNode_children cs oss = oss @ serializeNode_children cs []"
    by (rule serializeNode_children_appends) (rule ASTNode.IH)
  define header where
    "header = ''{ \"type\": \"'' @ t @ ''\", \"value\": \"'' @ v @ ''\", \"children\": [''"
  have "serializeNode (ASTNode t v cs) oss = serializeNode_children cs (oss @ header) @ ''] }''"
    by (simp add: header_def)
  also have "\<dots> = oss @ (serializeNode_children cs header @ ''] }'')"
    using ch [of "oss @ header"] ch [of header] by simp
  also have "serializeNode_children cs header @ ''] }'' = serializeNode (ASTNode t v cs) []"
    by (simp add: header_def)
  finally show ?case .
qed

section \<open>The claims\<close>

text \<open>
  C1. The claim: every call of \<^verbatim>\<open>getNextToken\<close> made before the end of the input moves
  the scan position forward, and a character that is no letter, underscore or digit gives
  a one-character \<^verbatim>\<open>UNKNOWN\<close> token and a position advanced by one. The code does emit
  that token, but the branch that builds it has no \<^verbatim>\<open>++pos\<close>: on the text \<open>;\<close> at
  position 0, which is before the end, the call returns the token and the lexer unchanged,
  so the position has not moved (the identifier and literal branches do consume what they
  return).
\<close>

theorem getNextToken_unknown_char_stays:
  "pos (newLexer '';'') < length (code (newLexer '';'')) \<and>
   getNextToken (newLexer '';'') =
     (\<lparr>tok_type = UNKNOWN, tok_value = '';''\<rparr>, newLexer '';'') \<and>
   pos (snd (getNextToken (newLexer '';''))) = pos (newLexer '';'')"
  by (simp add: lexer_eval)

text \<open>
  C2. The claim: for the empty source text the token stream is the end sentinel alone, and
  \<^verbatim>\<open>parse\<close> on it returns a Program node without children. The stream is as claimed,
  but \<^verbatim>\<open>parse\<close> has no result: the sentinel is a token of the vector like any other,
  the statement attempt rejects it without moving the cursor, and the loop of
  \<^verbatim>\<open>parseProgram\<close> never ends.
\<close>

theorem parse_empty_source_never_returns:
  "tokenize [] = [\<lparr>tok_type = UNKNOWN, tok_value = []\<rparr>] \<and>
   parseStatement (newParser (tokenize [])) =
     Inr (None, write_cerr ''Unexpected token: '' (newParser (tokenize []))) \<and>
   parse (newParser (tokenize [])) = None"
  by (simp add: tokenize_empty parse_def parseProgram_def newParser_def parseProgram_loop_stuck
      parseStatement_eq write_cerr_def)

text \<open>
  C3. The claim: for the source text \<open>123;\<close> the first token is the literal \<open>123\<close>, the
  statement attempt reports it as unexpected, and \<^verbatim>\<open>parse\<close> returns a Program node
  without children. The first token and the diagnostic are as claimed, but the attempt
  leaves the cursor on the literal, so the loop of \<^verbatim>\<open>parseProgram\<close> repeats it forever
  and \<^verbatim>\<open>parse\<close> has no result.
\<close>

theorem parse_literal_source_never_returns:
  "hd (tokenize ''123;'') = \<lparr>tok_type = LITERAL, tok_value = ''123''\<rparr> \<and>
   parseStatement (newParser (tokenize ''123;'')) =
     Inr (None, write_cerr ''Unexpected token: 123'' (newParser (tokenize ''123;''))) \<and>
   parse (newParser (tokenize ''123;'')) = None"
  by (simp add: tokenize_123 parse_def parseProgram_def newParser_def parseProgram_loop_stuck
      parseStatement_eq write_cerr_def)

text \<open>
  C4. For the source text \<open>foo;\<close> the token stream is the identifier \<open>foo\<close> followed by
  the \<^verbatim>\<open>UNKNOWN\<close> token \<open>;\<close>, and \<^verbatim>\<open>parse\<close> returns a Program node with exactly one
  child, a Statement node of value \<open>foo\<close>; both tokens are consumed and nothing is written
  to the error stream.
\<close>

theorem parse_foo_statement:
  "tokenize ''foo;'' =
     [\<lparr>tok_type = IDENTIFIER, tok_value = ''foo''\<rparr>, \<lparr>tok_type = UNKNOWN, tok_value = '';''\<rparr>] \<and>
   parse (newParser (tokenize ''foo;'')) =
     Some (Inr (ASTNode ''Program'' [] [ASTNode ''Statement'' ''foo'' []],
                \<lparr>tokens = tokenize ''foo;'', index = 2, cerr = []\<rparr>))"
  using tokenize_foo parse_foo by simp

text \<open>
  C5. For every source text the materialized token stream is a (finite) non-empty list,
  its last token has kind \<^verbatim>\<open>UNKNOWN\<close> and no token before the last has: the loop of
  \<^verbatim>\<open>main\<close> stops at the first \<^verbatim>\<open>UNKNOWN\<close> token, the end sentinel or a single irregular
  character alike. On \<open>a;b\<close> the stream ends at the \<open>;\<close> and the \<open>b\<close> is never read.
\<close>

theorem tokenize_stream_shape:
  "tokenize src \<noteq> [] \<and> tok_type (last (tokenize src)) = UNKNOWN \<and>
   (\<forall>t \<in> set (butlast (tokenize src)). tok_type t \<noteq> UNKNOWN)"
  using tokenize_loop_shape [of "newLexer src" "[]"] by (auto simp: tokenize_def)

theorem tokenize_stream_shape_witness:
  "tokenize ''a;b'' =
     [\<lparr>tok_type = IDENTIFIER, tok_value = ''a''\<rparr>, \<lparr>tok_type = UNKNOWN, tok_value = '';''\<rparr>] \<and>
   tok_type (last (tokenize ''a;b'')) = UNKNOWN \<and>
   list_all (\<lambda>t. tok_type t \<noteq> UNKNOWN) (butlast (tokenize ''a;b''))"
  using tokenize_stream_shape [of "''a;b''"]
  by (simp add: tokenize_def tokenize_loop.simps lexer_eval)

text \<open>
  C6. The claim: every maximal run of letters, digits and underscores of the source text
  that starts with a letter or an underscore comes out as exactly one \<^verbatim>\<open>IDENTIFIER\<close>
  token whose text is the whole run. As stated it fails: in \<open>a;b\<close> the run \<open>b\<close> is such
  a run, but the stream stops at the \<open>;\<close> in front of it and no call of
  \<^verbatim>\<open>getNextToken\<close> ever gets behind that character, so no token is emitted for \<open>b\<close>.
\<close>

theorem identifier_run_behind_irregular_char_counterexample:
  "isalpha (CHR ''b'') \<and> \<not> (isalnum (CHR '';'') \<or> CHR '';'' = CHR ''_'') \<and>
   tokenize (''a;'' @ ''b'' @ []) =
     [\<lparr>tok_type = IDENTIFIER, tok_value = ''a''\<rparr>, \<lparr>tok_type = UNKNOWN, tok_value = '';''\<rparr>] \<and>
   \<lparr>tok_type = IDENTIFIER, tok_value = ''b''\<rparr> \<notin> set (tokenize (''a;'' @ ''b'' @ [])) \<and>
   snd (getNextToken (newLexer ''a;b'')) = \<lparr>code = ''a;b'', pos = 1\<rparr> \<and>
   getNextToken \<lparr>code = ''a;b'', pos = 1\<rparr> =
     (\<lparr>tok_type = UNKNOWN, tok_value = '';''\<rparr>, \<lparr>code = ''a;b'', pos = 1\<rparr>)"
  by (simp add: tokenize_def tokenize_loop.simps lexer_eval)

text \<open>
  C6, as amended. The claim holds for every run that the tokenizer reaches, which are the
  runs with nothing but white space, letters, digits and underscores in front of them.
  The source text is split as \<open>pre @ run @ post\<close>: \<open>pre\<close> holds only such characters,
  the run is maximal on the left (\<open>pre\<close> is empty or ends in a character that is no
  letter, digit or underscore) and on the right (\<open>post\<close> is empty or starts with such a
  character), and it starts with a letter or an underscore. Then the materialized stream
  is: tokens whose texts spell \<open>pre\<close> without its white space, then one \<^verbatim>\<open>IDENTIFIER\<close>
  token whose text is the whole run, then the tokens that the loop of \<^verbatim>\<open>main\<close> scans
  from the position right behind the run. So the run gives exactly one token, and no
  shorter token for a prefix of it.
\<close>

theorem identifier_run_in_stream:
  assumes regular: "\<forall>c \<in> set pre. isspace c \<or> isalnum c \<or> c = CHR ''_''"
    and left: "pre = [] \<or> \<not> (isalnum (last pre) \<or> last pre = CHR ''_'')"
    and ne: "run \<noteq> []"
    and start: "isalpha (hd run) \<or> hd run = CHR ''_''"
    and run: "\<forall>c \<in> set run. isalnum c \<or> c = CHR ''_''"
    and maximal: "post = [] \<or> \<not> (isalnum (hd post) \<or> hd post = CHR ''_'')"
  shows "\<exists>before. tokenize (pre @ run @ post) =
            before @ \<lparr>tok_type = IDENTIFIER, tok_value = run\<rparr> #
              tokenize_loop \<lparr>code = pre @ run @ post, pos = length pre + length run\<rparr> [] \<and>
          concat (map tok_value before) = filter (\<lambda>c. \<not> isspace c) pre"
  using tokenize_loop_reaches_run [OF assms, of "newLexer (pre @ run @ post)"]
  by (simp add: tokenize_def newLexer_def)

theorem identifier_run_in_stream_witness:
  "tokenize (''12 x '' @ ''foo_1'' @ ''+2'') =
     [\<lparr>tok_type = LITERAL, tok_value = ''12''\<rparr>, \<lparr>tok_type = IDENTIFIER, tok_value = ''x''\<rparr>] @
     \<lparr>tok_type = IDENTIFIER, tok_value = ''foo_1''\<rparr> #
     tokenize_loop \<lparr>code = ''12 x '' @ ''foo_1'' @ ''+2'', pos = 10\<rparr> [] \<and>
   concat (map tok_value
     [\<lparr>tok_type = LITERAL, tok_value = ''12''\<rparr>, \<lparr>tok_type = IDENTIFIER, tok_value = ''x''\<rparr>]) =
     filter (\<lambda>c. \<not> isspace c) ''12 x '' \<and>
   tokenize ''12 x foo_1+2'' =
     [\<lparr>tok_type = LITERAL, tok_value = ''12''\<rparr>, \<lparr>tok_type = IDENTIFIER, tok_value = ''x''\<rparr>,
      \<lparr>tok_type = IDENTIFIER, tok_value = ''foo_1''\<rparr>, \<lparr>tok_type = UNKNOWN, tok_value = ''+''\<rparr>]"
  using identifier_run_in_stream [of "''12 x ''" "''foo_1''" "''+2''"]
  by (simp add: tokenize_def tokenize_loop.simps lexer_eval)

text \<open>
  C7. Whenever \<^verbatim>\<open>parse\<close> returns, from any token vector (and any cursor), the root has
  the label \<open>Program\<close> and an empty value, and every child of the root is a node labelled
  \<open>Statement\<close> without children: the tree has exactly two levels.
\<close>

theorem parse_tree_two_levels:
  assumes "parse p = Some (Inr (root, p'))"
  shows "node_type root = ''Program'' \<and> node_value root = [] \<and>
         (\<forall>c \<in> set (children root). node_type c = ''Statement'' \<and> children c = [])"
  using parseProgram_loop_shape [of p "ASTNode ''Program'' [] []" "Inr (root, p')"] assms
  by (simp add: parse_def parseProgram_def)

theorem parse_tree_two_levels_witness:
  "parse (newParser (tokenize ''foo;'')) =
     Some (Inr (ASTNode ''Program'' [] [ASTNode ''Statement'' ''foo'' []],
                \<lparr>tokens = tokenize ''foo;'', index = 2, cerr = []\<rparr>)) \<and>
   node_type (ASTNode ''Program'' [] [ASTNode ''Statement'' ''foo'' []]) = ''Program'' \<and>
   node_value (ASTNode ''Program'' [] [ASTNode ''Statement'' ''foo'' []]) = [] \<and>
   list_all (\<lambda>c. node_type c = ''Statement'' \<and> children c = [])
     (children (ASTNode ''Program'' [] [ASTNode ''Statement'' ''foo'' []]))"
  using parse_foo
    parse_tree_two_levels [OF parse_foo]
  by simp

text \<open>
  C8. For every token vector and cursor, with \<open>token\<close> the current token and
  \<open>next_token\<close> the token behind it (each the sentinel when the cursor is at or past the
  end), a statement attempt fails, that is returns \<^verbatim>\<open>nullptr\<close>, exactly when the current
  token is no identifier or the text of the next one is not the semicolon. In both cases
  it yields no node, keeps the token vector, writes exactly one line to the error stream
  and leaves the failing token at the cursor:
  \<^item> on a current token that is no identifier the cursor is unchanged, the line names the
    token, and the token is still the current one;
  \<^item> on an identifier that the semicolon does not follow, only the identifier is consumed,
    the line says that the semicolon is missing, and the token that is not the semicolon
    is the current one.
\<close>

theorem parseStatement_failure:
  assumes cur: "getCurrentToken p = Inr token"
    and nxt: "getCurrentToken (consumeToken p) = Inr next_token"
  shows
    "(tok_type token \<noteq> IDENTIFIER \<longrightarrow>
        parseStatement p =
          Inr (None, p\<lparr>cerr := cerr p @ [''Unexpected token: '' @ tok_value token]\<rparr>) \<and>
        getCurrentToken (p\<lparr>cerr := cerr p @ [''Unexpected token: '' @ tok_value token]\<rparr>) =
          Inr token) \<and>
     (tok_type token = IDENTIFIER \<and> tok_value next_token \<noteq> '';'' \<longrightarrow>
        parseStatement p =
          Inr (None, p\<lparr>index := Suc (index p),
                          cerr := cerr p @ [''Expected semicolon after identifier.'']\<rparr>) \<and>
        getCurrentToken (p\<lparr>index := Suc (index p),
                          cerr := cerr p @ [''Expected semicolon after identifier.'']\<rparr>) =
          Inr next_token) \<and>
     ((\<exists>p'. parseStatement p = Inr (None, p')) =
        (tok_type token \<noteq> IDENTIFIER \<or> tok_value next_token \<noteq> '';''))"
proof -
  have a: "tok_type token \<noteq> IDENTIFIER \<Longrightarrow>
      parseStatement p =
        Inr (None, p\<lparr>cerr := cerr p @ [''Unexpected token: '' @ tok_value token]\<rparr>)"
    using cur by (simp add: parseStatement_def write_cerr_def)
  have a': "getCurrentToken (p\<lparr>cerr := cerr p @ [''Unexpected token: '' @ tok_value token]\<rparr>) =
      Inr token"
    using cur by (auto simp: getCurrentToken_eq split: if_splits)
  have b: "tok_type token = IDENTIFIER \<Longrightarrow> tok_value next_token \<noteq> '';'' \<Longrightarrow>
      parseStatement p =
        Inr (None, p\<lparr>index := Suc (index p),
                        cerr := cerr p @ [''Expected semicolon after identifier.'']\<rparr>)"
    using cur nxt by (simp add: parseStatement_def write_cerr_def consumeToken_def)
  have b': "getCurrentToken (p\<lparr>index := Suc (index p),
                          cerr := cerr p @ [''Expected semicolon after identifier.'']\<rparr>) =
      Inr next_token"
    using nxt by (auto simp: getCurrentToken_eq consumeToken_def split: if_splits)
  have c: "tok_type token = IDENTIFIER \<Longrightarrow> tok_value next_token = '';'' \<Longrightarrow>
      parseStatement p =
        Inr (Some (ASTNode ''Statement'' (tok_value token) []), consumeToken (consumeToken p))"
    using cur nxt by (simp add: parseStatement_def)
  have d: "(\<exists>p'. parseStatement p = Inr (None, p')) =
        (tok_type token \<noteq> IDENTIFIER \<or> tok_value next_token \<noteq> '';'')"
  proof (cases "tok_type token = IDENTIFIER")
    case False
    with a show ?thesis by simp
  next
    case True
    show ?thesis
    proof (cases "tok_value next_token = '';''")
      case True
      with \<open>tok_type token = IDENTIFIER\<close> c show ?thesis by simp
    next
      case False
      with \<open>tok_type token = IDENTIFIER\<close> b show ?thesis by simp
    qed
  qed
  from a a' b b' d show ?thesis by blast
qed

theorem parseStatement_failure_witness:
  "parseStatement (newParser (tokenize ''a b;'')) =
     Inr (None, \<lparr>tokens = tokenize ''a b;'', index = 1,
                 cerr = [''Expected semicolon after identifier.'']\<rparr>) \<and>
   getCurrentToken \<lparr>tokens = tokenize ''a b;'', index = 1,
                    cerr = [''Expected semicolon after identifier.'']\<rparr> =
     Inr \<lparr>tok_type = IDENTIFIER, tok_value = ''b''\<rparr> \<and>
   parseStatement (newParser (tokenize ''123;'')) =
     Inr (None, \<lparr>tokens = tokenize ''123;'', index = 0, cerr = [''Unexpected token: 123'']\<rparr>) \<and>
   getCurrentToken \<lparr>tokens = tokenize ''123;'', index = 0, cerr = [''Unexpected token: 123'']\<rparr> =
     Inr \<lparr>tok_type = LITERAL, tok_value = ''123''\<rparr> \<and>
   parseStatement (newParser (tokenize ''foo;'')) =
     Inr (Some (ASTNode ''Statement'' ''foo'' []),
          \<lparr>tokens = tokenize ''foo;'', index = 2, cerr = []\<rparr>)"
  using
    parseStatement_failure [of "newParser (tokenize ''a b;'')"
      "\<lparr>tok_type = IDENTIFIER, tok_value = ''a''\<rparr>" "\<lparr>tok_type = IDENTIFIER, tok_value = ''b''\<rparr>"]
    parseStatement_failure [of "newParser (tokenize ''123;'')"
      "\<lparr>tok_type = LITERAL, tok_value = ''123''\<rparr>" "\<lparr>tok_type = UNKNOWN, tok_value = '';''\<rparr>"]
    parseStatement_failure [of "newParser (tokenize ''foo;'')"
      "\<lparr>tok_type = IDENTIFIER, tok_value = ''foo''\<rparr>" "\<lparr>tok_type = UNKNOWN, tok_value = '';''\<rparr>"]
  by (simp add: tokenize_a_b tokenize_123 tokenize_foo newParser_def getCurrentToken_eq
      consumeToken_def parseStatement_eq)

text \<open>
  C9. The text that \<^verbatim>\<open>serialize\<close> returns is a function of the tree alone: two nodes with
  the same label, value and children (structurally equal trees, or the same tree twice)
  give the same text, and what \<^verbatim>\<open>serializeNode\<close> appends to a stream is that text
  whatever the stream already holds.
\<close>

theorem serialize_pure:
  assumes "node_type a = node_type b" and "node_value a = node_value b"
    and "children a = children b"
  shows "serialize a = serialize b \<and> serializeNode a oss = oss @ serialize b"
proof -
  from assms have "a = b" by (simp add: ASTNode.expand)
  then show ?thesis
    using serializeNode_appends [of b oss] by (simp add: serialize_def)
qed

theorem serialize_pure_witness:
  "serialize (ASTNode ''Program'' [] [ASTNode ''Statement'' ''foo'' []]) =
     ''{ \"type\": \"Program\", \"value\": \"\", \"children\": [{ \"type\": \"Statement\", \"value\": \"foo\", \"children\": [] }] }'' \<and>
   serializeNode (ASTNode ''Program'' [] [ASTNode ''Statement'' ''foo'' []]) ''Serialized AST: '' =
     ''Serialized AST: '' @ serialize (ASTNode ''Program'' [] [ASTNode ''Statement'' ''foo'' []])"
  using serialize_pure [of "ASTNode ''Program'' [] [ASTNode ''Statement'' ''foo'' []]"
      "ASTNode ''Program'' [] [ASTNode ''Statement'' ''foo'' []]" "''Serialized AST: ''"]
  by (simp add: serialize_def)

text \<open>
  C10. \<^verbatim>\<open>getCurrentToken\<close> is total: it reads the token vector only at an index below
  its size, and at or past the end it returns the sentinel (kind \<^verbatim>\<open>UNKNOWN\<close>, empty
  text). Every read of the vector by the parser goes through it, so neither a statement
  attempt nor \<^verbatim>\<open>parse\<close> ever reads out of range, from any token vector and any cursor.
\<close>

theorem getCurrentToken_total:
  "getCurrentToken p =
     Inr (if index p < length (tokens p) then tokens p ! index p
          else \<lparr>tok_type = UNKNOWN, tok_value = []\<rparr>) \<and>
   parseStatement p \<noteq> Inl e \<and> parse p \<noteq> Some (Inl e)"
proof -
  have "parseStatement p \<noteq> Inl e"
    by (simp add: parseStatement_eq Let_def)
  moreover have "parse p \<noteq> Some (Inl e)"
    using parseProgram_loop_no_error [of p "ASTNode ''Program'' [] []" "Inl e"]
    by (auto simp: parse_def parseProgram_def)
  ultimately show ?thesis by (simp add: getCurrentToken_eq)
qed

end
